theory Spec2Isabelle
  imports Main
begin

section \<open>The notification control deck (src/source/plugin/pause-plugin.ts)\<close>

text \<open>
  An \<open>Observable\<close> is used by the deck only as the key of its map of states, a
  JavaScript \<open>Map\<close> compared by object identity and iterated in insertion order: the
  key is modelled by a number and the map by an association list. A \<open>Subscription\<close>
  object is an address into a store of \<open>closed\<close> flags kept beside the deck, so
  that a subscription which the deck no longer holds can still be asked whether it has
  been unsubscribed. A \<open>Subject\<close> is modelled by the trace of the values handed to
  its \<open>next\<close>, oldest first: \<open>state_subject\<close> is what the deck has forwarded
  downstream for that stream, \<open>this_stats\<close> is what it has published on its
  statistics feed. The type \<open>'n\<close> is \<open>Notification<any>\<close>, \<open>'m\<close> is \<open>Match\<close>.

  Isabelle admits no name that ends with an underscore: the private member
  \<open>this.paused_\<close> is the field \<open>this_paused\<close> (likewise \<open>this_match\<close>,
  \<open>this_states\<close>, \<open>this_stats\<close>), the member \<open>state.notifications_\<close> is
  \<open>state_notifications\<close> (likewise \<open>state_subject\<close>, \<open>state_subscription\<close>,
  \<open>state_tag\<close>), the method \<open>broadcast_\<close> is \<open>broadcast\<close>.

  The methods are modelled first as they run when nothing calls back into the deck
  while they run: the source does not emit during the call that subscribes to it (its
  emissions are the later calls of \<open>next_handler\<close>), and a consumer of a forwarded
  notification does not call back into the deck while it is being forwarded. What
  \<open>resume\<close> does when a consumer calls back is modelled apart, further down.
\<close>

type_synonym observable = nat
type_synonym subscription = nat

datatype error = TypeError

record DeckStats =
  notifications :: int
  paused :: bool

record 'n State =
  state_notifications :: "'n list"
  state_subject :: "'n list"
  state_subscription :: "subscription option"
  state_tag :: "string option"

record ('m, 'n) Deck =
  this_match :: 'm
  this_paused :: bool
  this_states :: "(observable \<times> 'n State) list"
  this_stats :: "DeckStats list"
  closed :: "bool list"

text \<open>The constructor: \<open>paused_ = true\<close>, an empty map, a fresh statistics subject.\<close>

definition new_Deck :: "'m \<Rightarrow> ('m, 'n) Deck" where
  "new_Deck match =
     \<lparr>this_match = match, this_paused = True, this_states = [], this_stats = [], closed = []\<rparr>"

text \<open>\<open>states_.forEach(state => ...)\<close> for a body that only changes the state it is given.\<close>

definition forEach :: "('n State \<Rightarrow> 'n State) \<Rightarrow> ('m, 'n) Deck \<Rightarrow> ('m, 'n) Deck" where
  "forEach f d =
     d\<lparr>this_states := map (\<lambda>(observable, state). (observable, f state)) (this_states d)\<rparr>"

text \<open>A change of the one state object stored under the key \<open>observable\<close>.\<close>

definition with_state ::
  "observable \<Rightarrow> ('n State \<Rightarrow> 'n State) \<Rightarrow> ('m, 'n) Deck \<Rightarrow> ('m, 'n) Deck" where
  "with_state observable f d =
     d\<lparr>this_states := map (\<lambda>(k, state). if k = observable then (k, f state) else (k, state))
                      (this_states d)\<rparr>"

text \<open>\<open>broadcast\<close>: sums the buffer lengths over all states and publishes a record.\<close>

definition count_notifications :: "(observable \<times> 'n State) list \<Rightarrow> int" where
  "count_notifications states =
     fold (\<lambda>(observable, state) notifications. notifications + int (length (state_notifications state)))
          states 0"

definition broadcast :: "('m, 'n) Deck \<Rightarrow> ('m, 'n) Deck" where
  "broadcast d =
     d\<lparr>this_stats := this_stats d @
          [\<lparr>notifications = count_notifications (this_states d), paused = this_paused d\<rparr>]\<rparr>"

text \<open>\<open>clear(predicate)\<close>; called without an argument the predicate is \<open>() => true\<close>.\<close>

definition clear :: "('n \<Rightarrow> bool) \<Rightarrow> ('m, 'n) Deck \<Rightarrow> ('m, 'n) Deck" where
  "clear predicate d =
     broadcast (forEach (\<lambda>state. state\<lparr>state_notifications :=
        filter (\<lambda>notification. \<not> predicate notification) (state_notifications state)\<rparr>) d)"

definition clear_all :: "('m, 'n) Deck \<Rightarrow> ('m, 'n) Deck" where
  "clear_all d = clear (\<lambda>notification. True) d"

text \<open>
  The interception stage that \<open>getOperator\<close> installs subscribes to the source and the
  resulting \<open>Subscription\<close> is stored in the state: a new address in the store, open.
\<close>

definition subscribe_stage :: "observable \<Rightarrow> ('m, 'n) Deck \<Rightarrow> ('m, 'n) Deck" where
  "subscribe_stage observable d =
     with_state observable (\<lambda>state. state\<lparr>state_subscription := Some (length (closed d))\<rparr>)
       (d\<lparr>closed := closed d @ [False]\<rparr>)"

text \<open>
  \<open>getOperator(subscription)(source)\<close>, where \<open>observable\<close> is the stream of the
  subscription's record and \<open>tag\<close> is \<open>read(observable)\<close>. When the stream has a state
  already, \<open>state.subscription_!.unsubscribe()\<close> runs first: on \<open>undefined\<close> this is a
  \<open>TypeError\<close>, thrown before anything has been changed.
\<close>

definition getOperator ::
  "observable \<Rightarrow> string option \<Rightarrow> ('m, 'n) Deck \<Rightarrow> error + ('m, 'n) Deck" where
  "getOperator observable tag d =
     (case map_of (this_states d) observable of
        Some state \<Rightarrow>
          (case state_subscription state of
             None \<Rightarrow> Inl TypeError
           | Some old \<Rightarrow>
               Inr (broadcast (subscribe_stage observable (d\<lparr>closed := (closed d)[old := True]\<rparr>))))
      | None \<Rightarrow>
          Inr (broadcast (subscribe_stage observable
            (d\<lparr>this_states := this_states d @
               [(observable, \<lparr>state_notifications = [], state_subject = [],
                              state_subscription = None, state_tag = tag\<rparr>)]\<rparr>))))"

text \<open>
  The \<open>next\<close> handler of the stage installed for \<open>observable\<close> under the subscription
  \<open>s\<close>. A subscription that has been unsubscribed delivers nothing to its handler.
\<close>

definition is_open :: "('m, 'n) Deck \<Rightarrow> subscription \<Rightarrow> bool" where
  "is_open d s = (s < length (closed d) \<and> \<not> closed d ! s)"

definition next_handler :: "subscription \<Rightarrow> observable \<Rightarrow> 'n \<Rightarrow> ('m, 'n) Deck \<Rightarrow> ('m, 'n) Deck" where
  "next_handler s observable notification d =
     (if is_open d s then
        broadcast
          (if this_paused d then
             with_state observable
               (\<lambda>state. state\<lparr>state_notifications := state_notifications state @ [notification]\<rparr>) d
           else
             with_state observable
               (\<lambda>state. state\<lparr>state_subject := state_subject state @ [notification]\<rparr>) d)
      else d)"

definition pause :: "('m, 'n) Deck \<Rightarrow> ('m, 'n) Deck" where
  "pause d = broadcast (d\<lparr>this_paused := True\<rparr>)"

text \<open>The loop of \<open>resume\<close>: while the buffer is not empty, shift its head and forward it.\<close>

function drain :: "'n State \<Rightarrow> 'n State" where
  "drain state =
     (case state_notifications state of
        [] \<Rightarrow> state
      | notification # rest \<Rightarrow>
          drain (state\<lparr>state_notifications := rest, state_subject := state_subject state @ [notification]\<rparr>))"
  by pat_completeness auto
termination
  by (relation "measure (\<lambda>state. length (state_notifications state))") auto

declare drain.simps [simp del]

definition resume :: "('m, 'n) Deck \<Rightarrow> ('m, 'n) Deck" where
  "resume d = broadcast ((forEach drain d)\<lparr>this_paused := False\<rparr>)"

definition skip :: "('m, 'n) Deck \<Rightarrow> ('m, 'n) Deck" where
  "skip d =
     broadcast (forEach (\<lambda>state.
        case state_notifications state of
          [] \<Rightarrow> state
        | notification # rest \<Rightarrow> state\<lparr>state_notifications := rest\<rparr>) d)"

definition step :: "('m, 'n) Deck \<Rightarrow> ('m, 'n) Deck" where
  "step d =
     broadcast (forEach (\<lambda>state.
        case state_notifications state of
          [] \<Rightarrow> state
        | notification # rest \<Rightarrow>
            state\<lparr>state_notifications := rest, state_subject := state_subject state @ [notification]\<rparr>) d)"

text \<open>
  \<open>unsubscribe\<close>: every subscription held by a state is unsubscribed in the store and
  the state's field is set to \<open>undefined\<close>. Nothing else of a state is touched.
\<close>

definition unsubscribe_store :: "(observable \<times> 'n State) list \<Rightarrow> bool list \<Rightarrow> bool list" where
  "unsubscribe_store states store =
     fold (\<lambda>(observable, state) store.
             case state_subscription state of
               None \<Rightarrow> store
             | Some s \<Rightarrow> store[s := True])
          states store"

definition unsubscribe :: "('m, 'n) Deck \<Rightarrow> ('m, 'n) Deck" where
  "unsubscribe d =
     broadcast
       ((forEach (\<lambda>state. state\<lparr>state_subscription := None\<rparr>) d)
          \<lparr>closed := unsubscribe_store (this_states d) (closed d)\<rparr>)"

text \<open>\<open>PausePlugin.teardown\<close>: \<open>deck_.resume(); deck_.unsubscribe()\<close>.\<close>

definition teardown :: "('m, 'n) Deck \<Rightarrow> ('m, 'n) Deck" where
  "teardown d = unsubscribe (resume d)"

text \<open>Observations used to state the properties.\<close>

definition state_of :: "('m, 'n) Deck \<Rightarrow> observable \<Rightarrow> 'n State option" where
  "state_of d observable = map_of (this_states d) observable"

definition buffers :: "('m, 'n) Deck \<Rightarrow> 'n list list" where
  "buffers d = map (state_notifications \<circ> snd) (this_states d)"

definition forwarded :: "('m, 'n) Deck \<Rightarrow> 'n list list" where
  "forwarded d = map (state_subject \<circ> snd) (this_states d)"

definition held :: "('m, 'n) Deck \<Rightarrow> subscription option list" where
  "held d = map (state_subscription \<circ> snd) (this_states d)"

text \<open>
  The statistics as the specification words them: the total of the buffer lengths over
  all streams of the deck, and the paused flag.
\<close>

definition current_stats :: "('m, 'n) Deck \<Rightarrow> DeckStats" where
  "current_stats d =
     \<lparr>notifications = int (sum_list (map length (buffers d))), paused = this_paused d\<rparr>"

subsection \<open>Runs of a deck\<close>

text \<open>
  What can happen to a deck: a call of one of its methods, or a notification reaching
  the handler of a stage. A call of \<open>getOperator\<close> that throws leaves the deck as it
  was. A run is a sequence of such events; the decks that exist are the results of runs
  from \<open>new_Deck\<close>. The event \<open>Next s observable notification\<close> names the handler by
  its subscription and the stream of its state; runs are not restricted to the pairs
  for which \<open>getOperator\<close> has made a handler, so what holds of every run holds of
  the runs that can happen.
\<close>

datatype 'n operation =
    Clear "'n \<Rightarrow> bool"
  | GetOperator observable "string option"
  | Next subscription observable 'n
  | Pause | Resume | Skip | Step | Unsubscribe

fun apply_op :: "'n operation \<Rightarrow> ('m, 'n) Deck \<Rightarrow> ('m, 'n) Deck" where
  "apply_op (Clear predicate) d = clear predicate d"
| "apply_op (GetOperator observable tag) d =
     (case getOperator observable tag d of Inl e \<Rightarrow> d | Inr d' \<Rightarrow> d')"
| "apply_op (Next s observable notification) d = next_handler s observable notification d"
| "apply_op Pause d = pause d"
| "apply_op Resume d = resume d"
| "apply_op Skip d = skip d"
| "apply_op Step d = step d"
| "apply_op Unsubscribe d = unsubscribe d"

definition run :: "'n operation list \<Rightarrow> ('m, 'n) Deck \<Rightarrow> ('m, 'n) Deck" where
  "run ops d = fold apply_op ops d"

text \<open>
  The events that reach \<open>broadcast\<close>: all but a \<open>getOperator\<close> that throws and a
  notification for a stage that has been unsubscribed.
\<close>

fun publishes :: "'n operation \<Rightarrow> ('m, 'n) Deck \<Rightarrow> bool" where
  "publishes (GetOperator observable tag) d =
     (case getOperator observable tag d of Inl e \<Rightarrow> False | Inr d' \<Rightarrow> True)"
| "publishes (Next s observable notification) d = is_open d s"
| "publishes op d = True"

fun published :: "'n operation list \<Rightarrow> ('m, 'n) Deck \<Rightarrow> DeckStats list" where
  "published [] d = []"
| "published (op # ops) d =
     (if publishes op d then [current_stats (apply_op op d)] else [])
       @ published ops (apply_op op d)"

subsection \<open>Invariants of the decks that exist\<close>



definition keys_distinct :: "('m, 'n) Deck \<Rightarrow> bool" where
  "keys_distinct d = distinct (map fst (this_states d))"

definition held_in_store :: "('m, 'n) Deck \<Rightarrow> bool" where
  "held_in_store d = (\<forall>h \<in> set (held d). \<forall>s. h = Some s \<longrightarrow> s < length (closed d))"

subsection \<open>Example decks\<close>

text \<open>
  The deck after \<open>new Deck(match)\<close> and one application of \<open>getOperator\<close> for the
  stream \<open>0\<close>, and the same deck after the notifications \<open>1\<close> and \<open>2\<close> have arrived.
\<close>

definition example_state :: "nat State" where
  "example_state =
     \<lparr>state_notifications = [], state_subject = [], state_subscription = Some 0, state_tag = None\<rparr>"

definition example_deck :: "(unit, nat) Deck" where
  "example_deck =
     \<lparr>this_match = (), this_paused = True, this_states = [(0, example_state)],
      this_stats = [\<lparr>notifications = 0, paused = True\<rparr>], closed = [False]\<rparr>"

definition example_buffered :: "(unit, nat) Deck" where
  "example_buffered = next_handler 0 0 2 (next_handler 0 0 1 example_deck)"

subsection \<open>Calls back into the deck while \<open>resume\<close> runs\<close>

text \<open>
  \<open>subject_.next\<close> hands the notification to the consumer of the stream at once, and
  the consumer may push into the source of an intercepted stream before it returns:
  the push reaches the \<open>next\<close> handler of that stream's stage while the deck is in
  the middle of its own method. \<open>consumer observable notification\<close> lists what the
  consumer of \<open>observable\<close> pushes when it is handed \<open>notification\<close>: the
  subscription of the stage, its stream, and the notification pushed. Such pushes can go
  on forever (a consumer that answers every notification by another one), so the
  functions take fuel and return \<open>None\<close> when it runs out.
\<close>

type_synonym 'n consumer = "observable \<Rightarrow> 'n \<Rightarrow> (subscription \<times> observable \<times> 'n) list"

text \<open>
  The handler of lines 88-95 when consumers call back (\<open>next_reentrant\<close>),
  \<open>state.subject_.next(notification)\<close> followed by what the consumer does
  (\<open>subject_next\<close>), and the pushes of a consumer, in order (\<open>pushes\<close>).
\<close>

fun next_reentrant ::
    "nat \<Rightarrow> 'n consumer \<Rightarrow> subscription \<Rightarrow> observable \<Rightarrow> 'n \<Rightarrow> ('m, 'n) Deck \<Rightarrow> ('m, 'n) Deck option"
  and subject_next ::
    "nat \<Rightarrow> 'n consumer \<Rightarrow> observable \<Rightarrow> 'n \<Rightarrow> ('m, 'n) Deck \<Rightarrow> ('m, 'n) Deck option"
  and pushes ::
    "nat \<Rightarrow> 'n consumer \<Rightarrow> (subscription \<times> observable \<times> 'n) list \<Rightarrow> ('m, 'n) Deck
       \<Rightarrow> ('m, 'n) Deck option"
  where
  "next_reentrant 0 consumer s observable notification d = None"
| "next_reentrant (Suc fuel) consumer s observable notification d =
     (if is_open d s then
        (if this_paused d then
           Some (broadcast (with_state observable
             (\<lambda>state. state\<lparr>state_notifications := state_notifications state @ [notification]\<rparr>) d))
         else
           map_option broadcast (subject_next fuel consumer observable notification d))
      else Some d)"
| "subject_next 0 consumer observable notification d = None"
| "subject_next (Suc fuel) consumer observable notification d =
     pushes fuel consumer (consumer observable notification)
       (with_state observable
          (\<lambda>state. state\<lparr>state_subject := state_subject state @ [notification]\<rparr>) d)"
| "pushes fuel consumer [] d = Some d"
| "pushes 0 consumer (push # rest) d = None"
| "pushes (Suc fuel) consumer ((s, observable, notification) # rest) d =
     (case next_reentrant fuel consumer s observable notification d of
        None \<Rightarrow> None
      | Some d' \<Rightarrow> pushes fuel consumer rest d')"

text \<open>
  The loop of \<open>resume\<close> for the state of one stream (lines 128-130): the buffer is
  read again at every turn, its head is shifted off and then forwarded.
\<close>

fun drain_reentrant ::
    "nat \<Rightarrow> 'n consumer \<Rightarrow> observable \<Rightarrow> ('m, 'n) Deck \<Rightarrow> ('m, 'n) Deck option" where
  "drain_reentrant 0 consumer observable d = None"
| "drain_reentrant (Suc fuel) consumer observable d =
     (case state_of d observable of
        None \<Rightarrow> Some d
      | Some state \<Rightarrow>
          (case state_notifications state of
             [] \<Rightarrow> Some d
           | notification # rest \<Rightarrow>
               (case subject_next fuel consumer observable notification
                       (with_state observable (\<lambda>state. state\<lparr>state_notifications := rest\<rparr>) d) of
                  None \<Rightarrow> None
                | Some d' \<Rightarrow> drain_reentrant fuel consumer observable d')))"

text \<open>
  \<open>states_.forEach\<close> visits every entry of the map once, in insertion order; pushes
  add no entry.
\<close>

fun forEach_drain ::
    "nat \<Rightarrow> 'n consumer \<Rightarrow> observable list \<Rightarrow> ('m, 'n) Deck \<Rightarrow> ('m, 'n) Deck option" where
  "forEach_drain fuel consumer [] d = Some d"
| "forEach_drain fuel consumer (observable # rest) d =
     (case drain_reentrant fuel consumer observable d of
        None \<Rightarrow> None
      | Some d' \<Rightarrow> forEach_drain fuel consumer rest d')"

text \<open>
  \<open>resume\<close> (lines 125-134): \<open>paused_\<close> is set to \<open>false\<close> after the loop, so
  the handlers reached from inside the loop see the deck as it was before the call.
\<close>

definition resume_reentrant :: "nat \<Rightarrow> 'n consumer \<Rightarrow> ('m, 'n) Deck \<Rightarrow> ('m, 'n) Deck option" where
  "resume_reentrant fuel consumer d =
     map_option (\<lambda>d'. broadcast (d'\<lparr>this_paused := False\<rparr>))
       (forEach_drain fuel consumer (map fst (this_states d)) d)"

text \<open>
  The consumer that never calls back; a paused deck with the streams \<open>0\<close> and \<open>1\<close>,
  in that order, and the notification \<open>5\<close> buffered for stream \<open>1\<close>; a consumer of
  stream \<open>1\<close> that answers every notification by pushing \<open>9\<close> into the source of
  stream \<open>0\<close>; and the deck in which \<open>resume\<close> then leaves them.
\<close>

definition quiet :: "'n consumer" where
  "quiet observable notification = []"




section \<open>The subscription graph tracker and its flush scheduler\<close>

text \<open>
  Modelled from the spec: the graph plugin itself (\<open>graph-plugin.ts\<close>, with
  \<open>GraphPlugin\<close>, \<open>GraphRef\<close> and \<open>getGraphRef\<close>) is not among the sources; only its
  test suite is (src/unnamed/part_000). The definitions of this section follow sections
  3, 4.1 and 4.2 of the specification. A subscription is identified by a number; time is
  a count of clock ticks.
\<close>

type_synonym ref = nat

datatype outcome = Completed | Errored | Unsubscribed

datatype graph_error = NotTracked

text \<open>
  Modelled from the spec: the Graph Node of section 3, not in the sources. \<open>destination\<close>
  is the optional reference to the node that consumes this one, \<open>sources\<close> the ordered
  sequence of direct sources, \<open>merges\<close> the dynamically spawned inner subscriptions,
  \<open>sentinel\<close> the sentinel of the connected subtree of the node, named by the number of
  the subtree; \<open>terminal\<close> is the outcome once \<open>onTeardown\<close> has marked the node. The
  derived \<open>rootDestination\<close> is the function of that name below. A sentinel is a node
  too: its \<open>sources\<close> are the root subscriptions of its subtree.
\<close>

record GraphNode =
  destination :: "ref option"
  sources :: "ref list"
  merges :: "ref list"
  sentinel :: nat
  terminal :: "outcome option"

text \<open>
  Modelled from the spec: the tracker state, not in the sources: the configured
  retention window, the node table, the sentinels (one for each connected subtree, made
  when its first root arrives), and for the flush scheduler the clock and the armed
  timers, each with the time at which it fires. The specification does not say how the
  tracker learns to which connected subtree a new root belongs: \<open>subtree_of\<close> is taken
  as given, so that roots may share a sentinel or have one each.
\<close>

record Tracker =
  retention_window :: nat
  subtree_of :: "ref \<Rightarrow> nat"
  nodes :: "ref \<Rightarrow> GraphNode option"
  sentinels :: "nat \<Rightarrow> GraphNode option"
  clock :: nat
  timers :: "(nat \<times> ref) list"

text \<open>
  Modelled from the spec: a tracker with its configured retention window (section 6)
  and the given subtrees, that has observed nothing yet; the constructor is not in the
  sources.
\<close>

definition new_Tracker :: "nat \<Rightarrow> (ref \<Rightarrow> nat) \<Rightarrow> Tracker" where
  "new_Tracker window subtrees =
     \<lparr>retention_window = window, subtree_of = subtrees, nodes = (\<lambda>subscription. None),
      sentinels = (\<lambda>subtree. None), clock = 0, timers = []\<rparr>"

text \<open>
  Modelled from the spec: the source list of the sentinel of a subtree (section 3); a
  sentinel that has not been made yet has no sources.
\<close>

definition sentinel_sources :: "Tracker \<Rightarrow> nat \<Rightarrow> ref list" where
  "sentinel_sources t subtree = (case sentinels t subtree of None \<Rightarrow> [] | Some s \<Rightarrow> sources s)"

text \<open>
  Modelled from the spec: \<open>get(subscription)\<close> of section 4.1, not in the sources; it
  fails with \<open>NotTracked\<close> for a subscription never observed or already flushed.
\<close>

definition get :: "Tracker \<Rightarrow> ref \<Rightarrow> graph_error + GraphNode" where
  "get t subscription =
     (case nodes t subscription of None \<Rightarrow> Inl NotTracked | Some node \<Rightarrow> Inr node)"

text \<open>
  Modelled from the spec: a new root (section 4.1): the node has no destination and is
  attached under the newly or previously created sentinel of its connected subtree.
\<close>

definition attach_root :: "ref \<Rightarrow> nat \<Rightarrow> Tracker \<Rightarrow> Tracker" where
  "attach_root subscription subtree t =
     (let s = (case sentinels t subtree of
                 None \<Rightarrow> \<lparr>destination = None, sources = [], merges = [], sentinel = subtree,
                           terminal = None\<rparr>
               | Some previous \<Rightarrow> previous)
      in t\<lparr>nodes := (nodes t)
               (subscription \<mapsto> \<lparr>destination = None, sources = [], merges = [], sentinel = subtree,
                                  terminal = None\<rparr>),
            sentinels := (sentinels t)(subtree \<mapsto> s\<lparr>sources := sources s @ [subscription]\<rparr>)\<rparr>)"

text \<open>
  Modelled from the spec: \<open>onSubscribe(subscription, destinationSubscription?)\<close> of
  section 4.1, not in the sources. It registers a new node; when the destination is
  tracked the node is linked to it, appended to the destination's sources, and shares
  the destination's sentinel; otherwise the node is a root.
\<close>

definition onSubscribe :: "ref \<Rightarrow> ref option \<Rightarrow> Tracker \<Rightarrow> Tracker" where
  "onSubscribe subscription destinationSubscription t =
     (case destinationSubscription of
        None \<Rightarrow> attach_root subscription (subtree_of t subscription) t
      | Some d \<Rightarrow>
          (case nodes t d of
             None \<Rightarrow> attach_root subscription (subtree_of t subscription) t
           | Some dnode \<Rightarrow>
               t\<lparr>nodes := (nodes t)
                    (d \<mapsto> dnode\<lparr>sources := sources dnode @ [subscription]\<rparr>,
                     subscription \<mapsto> \<lparr>destination = Some d, sources = [], merges = [],
                                        sentinel = sentinel dnode, terminal = None\<rparr>)\<rparr>))"

text \<open>
  Modelled from the spec: the walk behind \<open>rootDestination\<close> (section 4.1: computed
  lazily by walking destination links to exhaustion), not in the sources. The walk need
  not end on a cyclic table: not returning is the value \<open>None\<close>.
\<close>

partial_function (option) furthest :: "(ref \<Rightarrow> GraphNode option) \<Rightarrow> ref \<Rightarrow> ref option" where
  "furthest ns n =
     (case ns n of
        None \<Rightarrow> Some n
      | Some node \<Rightarrow>
          (case destination node of
             None \<Rightarrow> Some n
           | Some d \<Rightarrow> furthest ns d))"

text \<open>
  Modelled from the spec: \<open>rootDestination\<close> of section 3, not in the sources: the
  furthest destination reachable by following destination links, \<open>null\<close> for a node
  with no destination. The outer \<open>option\<close> is that of the walk.
\<close>

definition rootDestination :: "Tracker \<Rightarrow> GraphNode \<Rightarrow> ref option option" where
  "rootDestination t node =
     (case destination node of
        None \<Rightarrow> Some None
      | Some d \<Rightarrow> map_option Some (furthest (nodes t) d))"

text \<open>
  Modelled from the spec: the relation of the destination links of a node table
  (section 3), in which the property of the walk is stated.
\<close>

definition link :: "(ref \<Rightarrow> GraphNode option) \<Rightarrow> (ref \<times> ref) set" where
  "link ns = {(n, d). \<exists>node. ns n = Some node \<and> destination node = Some d}"

text \<open>
  Modelled from the spec: the removal path of the flush scheduler (section 4.2), not in
  the sources: the node is removed from every parent's sources and merges, from the
  sources of the sentinels, and from the table.
\<close>

definition flush :: "ref \<Rightarrow> Tracker \<Rightarrow> Tracker" where
  "flush node t =
     t\<lparr>nodes := (\<lambda>k. if k = node then None
                     else map_option (\<lambda>parent. parent\<lparr>sources := removeAll node (sources parent),
                                                     merges := removeAll node (merges parent)\<rparr>)
                            (nodes t k)),
       sentinels := (\<lambda>subtree. map_option (\<lambda>s. s\<lparr>sources := removeAll node (sources s)\<rparr>)
                             (sentinels t subtree))\<rparr>"

text \<open>
  Modelled from the spec: \<open>scheduleFlush(node, outcome)\<close> of section 4.2, not in the
  sources: a zero window flushes at once, otherwise a timer of the window's duration
  is armed.
\<close>

definition scheduleFlush :: "ref \<Rightarrow> outcome \<Rightarrow> Tracker \<Rightarrow> Tracker" where
  "scheduleFlush node outcome t =
     (if retention_window t = 0 then flush node t
      else t\<lparr>timers := timers t @ [(clock t + retention_window t, node)]\<rparr>)"

text \<open>
  Modelled from the spec: \<open>onTeardown(subscription, outcome)\<close> of section 4.1, not in
  the sources: it marks the node terminal and hands the removal to the scheduler.
\<close>

definition onTeardown :: "ref \<Rightarrow> outcome \<Rightarrow> Tracker \<Rightarrow> Tracker" where
  "onTeardown subscription outcome t =
     (case nodes t subscription of
        None \<Rightarrow> t
      | Some node \<Rightarrow>
          scheduleFlush subscription outcome
            (t\<lparr>nodes := (nodes t)(subscription \<mapsto> node\<lparr>terminal := Some outcome\<rparr>)\<rparr>))"

text \<open>
  Modelled from the spec: the passing of time (section 5: once armed a timer always
  fires), not in the sources: the clock advances and the timers that are due fire in
  the order in which they were armed.
\<close>

definition elapse :: "nat \<Rightarrow> Tracker \<Rightarrow> Tracker" where
  "elapse duration t =
     fold flush (map snd (filter (\<lambda>(due, node). due \<le> clock t + duration) (timers t)))
       (t\<lparr>clock := clock t + duration,
          timers := filter (\<lambda>(due, node). \<not> due \<le> clock t + duration) (timers t)\<rparr>)"

text \<open>
  Modelled from the spec: the chain of section 8, as the test "should determine root
  destinations" builds it: \<open>c\<close> is subscribed first, with no destination, then \<open>b\<close>
  with destination \<open>c\<close>, then \<open>a\<close> with destination \<open>b\<close>.
\<close>

definition subscribe_chain :: "ref \<Rightarrow> ref \<Rightarrow> ref \<Rightarrow> Tracker \<Rightarrow> Tracker" where
  "subscribe_chain a b c t = onSubscribe a (Some b) (onSubscribe b (Some c) (onSubscribe c None t))"

text \<open>
  Modelled from the spec: subscriptions that all belong to one connected subtree, and a
  tracker in which two root subscriptions, \<open>0\<close> and \<open>1\<close>, have arrived under its
  sentinel.
\<close>

definition same_subtree :: "ref \<Rightarrow> nat" where
  "same_subtree subscription = 0"

definition two_roots :: "nat \<Rightarrow> Tracker" where
  "two_roots window = onSubscribe 1 None (onSubscribe 0 None (new_Tracker window same_subtree))"

section \<open>Properties of the control deck\<close>

subsection \<open>Auxiliary facts\<close>

lemma fold_count:
  "fold (\<lambda>(observable, state) notifications. notifications + int (length (state_notifications state))) states acc
     = acc + int (sum_list (map length (map (state_notifications \<circ> snd) states)))"
  by (induction states arbitrary: acc) auto

lemma count_notifications_sum:
  "count_notifications states = int (sum_list (map length (map (state_notifications \<circ> snd) states)))"
  by (simp add: count_notifications_def fold_count)

lemma broadcast_current: "broadcast d = d\<lparr>this_stats := this_stats d @ [current_stats d]\<rparr>"
  by (simp only: broadcast_def current_stats_def buffers_def count_notifications_sum)

lemma map_of_forEach:
  "map_of (map (\<lambda>(observable, state). (observable, f state)) states) x = map_option f (map_of states x)"
  by (induction states) auto

lemma map_of_with:
  "map_of (map (\<lambda>(k, state). if k = x then (k, f state) else (k, state)) states) y
     = (if y = x then map_option f (map_of states x) else map_of states y)"
  by (induction states) auto

lemma drain_closed_form:
  "drain state = state\<lparr>state_notifications := [],
     state_subject := state_subject state @ state_notifications state\<rparr>"
proof (induction state rule: drain.induct)
  case (1 state)
  show ?case
  proof (cases "state_notifications state")
    case Nil
    then show ?thesis by (subst drain.simps) simp
  next
    case (Cons n rest)
    with 1 show ?thesis by (subst drain.simps) simp
  qed
qed

lemma broadcast_fields [simp]:
  "this_paused (broadcast d) = this_paused d"
  "this_states (broadcast d) = this_states d"
  "closed (broadcast d) = closed d"
  "this_match (broadcast d) = this_match d"
  "this_stats (broadcast d) = this_stats d @ [current_stats d]"
  by (simp_all add: broadcast_current)

lemma current_stats_broadcast [simp]: "current_stats (broadcast d) = current_stats d"
  by (simp add: current_stats_def buffers_def)

lemma forEach_fields [simp]:
  "this_paused (forEach f d) = this_paused d"
  "closed (forEach f d) = closed d"
  "this_match (forEach f d) = this_match d"
  "this_stats (forEach f d) = this_stats d"
  "map fst (this_states (forEach f d)) = map fst (this_states d)"
  by (simp_all add: forEach_def case_prod_unfold comp_def)

lemma with_state_fields [simp]:
  "this_paused (with_state x f d) = this_paused d"
  "closed (with_state x f d) = closed d"
  "this_match (with_state x f d) = this_match d"
  "this_stats (with_state x f d) = this_stats d"
  "map fst (this_states (with_state x f d)) = map fst (this_states d)"
  by (simp_all add: with_state_def case_prod_unfold comp_def)

lemma state_of_broadcast [simp]: "state_of (broadcast d) = state_of d"
  by (simp add: state_of_def fun_eq_iff)

lemma state_of_forEach [simp]: "state_of (forEach f d) x = map_option f (state_of d x)"
  by (simp add: state_of_def forEach_def map_of_forEach)

lemma state_of_with_state [simp]:
  "state_of (with_state x f d) y = (if y = x then map_option f (state_of d x) else state_of d y)"
  by (simp add: state_of_def with_state_def map_of_with)

lemma state_of_paused_update [simp]: "state_of (d\<lparr>this_paused := b\<rparr>) = state_of d"
  by (simp add: state_of_def fun_eq_iff)

lemma state_of_closed_update [simp]: "state_of (d\<lparr>closed := c\<rparr>) = state_of d"
  by (simp add: state_of_def fun_eq_iff)

lemma is_open_broadcast [simp]: "is_open (broadcast d) s = is_open d s"
  by (simp add: is_open_def)

lemma is_open_forEach [simp]: "is_open (forEach f d) s = is_open d s"
  by (simp add: is_open_def)

lemma is_open_with_state [simp]: "is_open (with_state x f d) s = is_open d s"
  by (simp add: is_open_def)

lemma is_open_paused_update [simp]: "is_open (d\<lparr>this_paused := b\<rparr>) s = is_open d s"
  by (simp add: is_open_def)

text \<open>The buffers, the forwarded traces and the held subscriptions under the loops.\<close>

lemma buffers_broadcast [simp]: "buffers (broadcast d) = buffers d"
  by (simp add: buffers_def)

lemma forwarded_broadcast [simp]: "forwarded (broadcast d) = forwarded d"
  by (simp add: forwarded_def)

lemma held_broadcast [simp]: "held (broadcast d) = held d"
  by (simp add: held_def)

lemma buffers_forEach: "buffers (forEach f d) = map (state_notifications \<circ> f \<circ> snd) (this_states d)"
  by (simp add: buffers_def forEach_def comp_def case_prod_unfold)

lemma forwarded_forEach: "forwarded (forEach f d) = map (state_subject \<circ> f \<circ> snd) (this_states d)"
  by (simp add: forwarded_def forEach_def comp_def case_prod_unfold)

lemma held_forEach: "held (forEach f d) = map (state_subscription \<circ> f \<circ> snd) (this_states d)"
  by (simp add: held_def forEach_def comp_def case_prod_unfold)

lemma buffers_clear: "buffers (clear p d) = map (filter (\<lambda>n. \<not> p n)) (buffers d)"
  by (simp add: clear_def buffers_forEach) (simp add: buffers_def)

lemma forwarded_clear: "forwarded (clear p d) = forwarded d"
  by (simp add: clear_def forwarded_forEach) (simp add: forwarded_def)


lemma forwarded_skip: "forwarded (skip d) = forwarded d"
  by (simp add: skip_def forwarded_forEach) (simp add: forwarded_def split: list.split)


lemma buffers_resume: "buffers (resume d) = map (\<lambda>b. []) (buffers d)"
  by (simp add: resume_def buffers_def forEach_def drain_closed_form comp_def case_prod_unfold)

lemma map2_append_same:
  "map (\<lambda>(f, b). f @ b) (zip (map g xs) (map h xs)) = map (\<lambda>x. g x @ h x) xs"
  by (induction xs) auto

lemma forwarded_resume:
  "forwarded (resume d) = map (\<lambda>(f, b). f @ b) (zip (forwarded d) (buffers d))"
  unfolding buffers_def forwarded_def map2_append_same
  by (simp add: resume_def forEach_def drain_closed_form comp_def case_prod_unfold)

lemma buffers_pause: "buffers (pause d) = buffers d"
  by (simp add: pause_def) (simp add: buffers_def)

lemma buffers_unsubscribe: "buffers (unsubscribe d) = buffers d"
  by (simp add: unsubscribe_def buffers_def forEach_def comp_def case_prod_unfold)

lemma forwarded_unsubscribe: "forwarded (unsubscribe d) = forwarded d"
  by (simp add: unsubscribe_def forwarded_def forEach_def comp_def case_prod_unfold)

lemma held_unsubscribe: "held (unsubscribe d) = map (\<lambda>h. None) (held d)"
  by (simp add: unsubscribe_def held_def forEach_def comp_def case_prod_unfold)

lemma subscribe_stage_fields [simp]:
  "this_paused (subscribe_stage x d) = this_paused d"
  "closed (subscribe_stage x d) = closed d @ [False]"
  "this_match (subscribe_stage x d) = this_match d"
  "this_stats (subscribe_stage x d) = this_stats d"
  "map fst (this_states (subscribe_stage x d)) = map fst (this_states d)"
  by (simp_all add: subscribe_stage_def)

lemma buffers_with_state_other:
  "(\<And>st. state_notifications (f st) = state_notifications st) \<Longrightarrow> buffers (with_state x f d) = buffers d"
  by (simp add: buffers_def with_state_def comp_def case_prod_unfold)

lemma buffers_closed_update [simp]: "buffers (d\<lparr>closed := c\<rparr>) = buffers d"
  by (simp add: buffers_def)

lemma buffers_subscribe_stage [simp]: "buffers (subscribe_stage x d) = buffers d"
  by (simp add: subscribe_stage_def buffers_with_state_other)

lemma current_stats_closed_update [simp]: "current_stats (d\<lparr>closed := c\<rparr>) = current_stats d"
  by (simp add: current_stats_def)

lemma forwarded_with_state_other:
  "(\<And>st. state_subject (f st) = state_subject st) \<Longrightarrow> forwarded (with_state x f d) = forwarded d"
  by (simp add: forwarded_def with_state_def comp_def case_prod_unfold)

lemma getOperator_cases:
  assumes "getOperator x tag d = Inr d'"
  obtains (replace) st old where "state_of d x = Some st" "state_subscription st = Some old"
      "d' = broadcast (subscribe_stage x (d\<lparr>closed := (closed d)[old := True]\<rparr>))"
  | (create) "state_of d x = None"
      "d' = broadcast (subscribe_stage x (d\<lparr>this_states := this_states d @
          [(x, \<lparr>state_notifications = [], state_subject = [], state_subscription = None, state_tag = tag\<rparr>)]\<rparr>))"
  using assms by (auto simp: getOperator_def state_of_def split: option.splits)

lemma getOperator_stats:
  "getOperator x tag d = Inr d' \<Longrightarrow> this_stats d' = this_stats d @ [current_stats d']"
  by (erule getOperator_cases) simp_all

lemma paused_after:
  "this_paused (clear p d) = this_paused d"
  "this_paused (skip d) = this_paused d"
  "this_paused (step d) = this_paused d"
  "this_paused (unsubscribe d) = this_paused d"
  "this_paused (next_handler s x n d) = this_paused d"
  "this_paused (pause d)"
  "\<not> this_paused (resume d)"
  by (simp_all add: clear_def skip_def step_def unsubscribe_def next_handler_def pause_def resume_def)

lemma held_with_state:
  "set (held (with_state x (\<lambda>st. st\<lparr>state_subscription := Some k\<rparr>) d)) \<subseteq> insert (Some k) (set (held d))"
  by (auto simp: held_def with_state_def split: if_splits)

lemma held_same:
  "(\<And>st. state_subscription (f st) = state_subscription st) \<Longrightarrow> held (forEach f d) = held d"
  "(\<And>st. state_subscription (f st) = state_subscription st) \<Longrightarrow> held (with_state x f d) = held d"
  by (simp_all add: held_def forEach_def with_state_def comp_def case_prod_unfold)

lemma held_updates [simp]:
  "held (d\<lparr>closed := c\<rparr>) = held d"
  "held (d\<lparr>this_paused := b\<rparr>) = held d"
  by (simp_all add: held_def)

lemma held_after:
  "held (clear p d) = held d"
  "held (skip d) = held d"
  "held (step d) = held d"
  "held (pause d) = held d"
  "held (resume d) = held d"
  "held (next_handler s x n d) = held d"
  by (simp_all add: clear_def skip_def step_def pause_def resume_def next_handler_def held_same
      drain_closed_form split: list.split)

lemma closed_after:
  "closed (clear p d) = closed d"
  "closed (skip d) = closed d"
  "closed (step d) = closed d"
  "closed (pause d) = closed d"
  "closed (resume d) = closed d"
  "closed (next_handler s x n d) = closed d"
  by (simp_all add: clear_def skip_def step_def pause_def resume_def next_handler_def)

lemma is_open_next_handler [simp]: "is_open (next_handler s x n d) s' = is_open d s'"
  by (simp add: is_open_def closed_after)

subsection \<open>The store under \<open>unsubscribe\<close>\<close>

lemma length_unsubscribe_store [simp]: "length (unsubscribe_store states store) = length store"
  unfolding unsubscribe_store_def
  by (induction states arbitrary: store) (auto split: option.splits)

lemma unsubscribe_store_Cons:
  "unsubscribe_store ((y, st) # states) store =
     unsubscribe_store states
       (case state_subscription st of None \<Rightarrow> store | Some s \<Rightarrow> store[s := True])"
  by (simp add: unsubscribe_store_def)

lemma closing_keeps: "s < length store \<Longrightarrow> store ! s \<Longrightarrow> store[k := True] ! s"
  by (cases "k < length store") (auto simp: nth_list_update)

lemma unsubscribe_store_keeps:
  "s < length store \<Longrightarrow> store ! s \<Longrightarrow> unsubscribe_store states store ! s"
proof (induction states arbitrary: store)
  case Nil
  then show ?case by (simp add: unsubscribe_store_def)
next
  case (Cons a states)
  obtain y st where a: "a = (y, st)" by (cases a)
  let ?store' = "case state_subscription st of None \<Rightarrow> store | Some s' \<Rightarrow> store[s' := True]"
  have "s < length ?store'" using Cons.prems(1) by (simp split: option.split)
  moreover have "?store' ! s" using Cons.prems by (auto simp: closing_keeps split: option.split)
  ultimately have "unsubscribe_store states ?store' ! s" by (rule Cons.IH)
  then show ?case by (simp add: a unsubscribe_store_Cons)
qed

lemma unsubscribe_store_closes:
  "(x, st) \<in> set states \<Longrightarrow> state_subscription st = Some s \<Longrightarrow> s < length store
     \<Longrightarrow> unsubscribe_store states store ! s"
proof (induction states arbitrary: store)
  case Nil
  then show ?case by simp
next
  case (Cons a states)
  obtain y st' where a: "a = (y, st')" by (cases a)
  let ?store' = "case state_subscription st' of None \<Rightarrow> store | Some s' \<Rightarrow> store[s' := True]"
  have unfold: "unsubscribe_store (a # states) store = unsubscribe_store states ?store'"
    by (simp add: unsubscribe_store_Cons a)
  have len: "s < length ?store'" using Cons.prems(3) by (simp split: option.split)
  show ?case
  proof (cases "(x, st) = a")
    case True
    with a Cons.prems have "?store' ! s" by simp
    with len show ?thesis unfolding unfold by (rule unsubscribe_store_keeps)
  next
    case False
    with Cons.prems have "(x, st) \<in> set states" by simp
    from Cons.IH [OF this Cons.prems(2) len] show ?thesis unfolding unfold .
  qed
qed

lemma state_of_unsubscribe:
  "state_of (unsubscribe d) y = map_option (\<lambda>st. st\<lparr>state_subscription := None\<rparr>) (state_of d y)"
  by (simp add: unsubscribe_def)

subsection \<open>What \<open>getOperator\<close> does to a deck\<close>


lemma getOperator_paused: "getOperator x tag d = Inr d' \<Longrightarrow> this_paused d' = this_paused d"
  by (erule getOperator_cases) simp_all

lemma getOperator_keys:
  "getOperator x tag d = Inr d' \<Longrightarrow> distinct (map fst (this_states d))
     \<Longrightarrow> distinct (map fst (this_states d'))"
  by (erule getOperator_cases) (auto simp: state_of_def map_of_eq_None_iff)

lemma getOperator_closed:
  "getOperator x tag d = Inr d' \<Longrightarrow> length (closed d') = Suc (length (closed d))"
  by (erule getOperator_cases) simp_all

lemma held_subscribe_stage:
  "set (held (subscribe_stage x d)) \<subseteq> insert (Some (length (closed d))) (set (held d))"
  using held_with_state [of x "length (closed d)" "d\<lparr>closed := closed d @ [False]\<rparr>"]
  by (simp add: subscribe_stage_def)

lemma getOperator_held:
  assumes "getOperator x tag d = Inr d'"
  shows "set (held d') \<subseteq> {None, Some (length (closed d))} \<union> set (held d)"
  using assms
proof (cases rule: getOperator_cases)
  case (replace st old)
  show ?thesis
    using held_subscribe_stage [of x "d\<lparr>closed := (closed d)[old := True]\<rparr>"]
    by (auto simp: replace)
next
  case create
  let ?d = "d\<lparr>this_states := this_states d @
          [(x, \<lparr>state_notifications = [], state_subject = [], state_subscription = None, state_tag = tag\<rparr>)]\<rparr>"
  have "held ?d = held d @ [None]" by (simp add: held_def)
  with held_subscribe_stage [of x ?d] show ?thesis
    by (auto simp: create)
qed

lemma getOperator_new_stream:
  assumes "state_of d y = None"
  shows "\<exists>d'. getOperator y tag d = Inr d'
           \<and> state_of d' y = Some \<lparr>state_notifications = [], state_subject = [],
                 state_subscription = Some (length (closed d)), state_tag = tag\<rparr>
           \<and> is_open d' (length (closed d))"
proof -
  let ?new = "\<lparr>state_notifications = [], state_subject = [],
                state_subscription = None, state_tag = tag\<rparr>"
  let ?d = "d\<lparr>this_states := this_states d @ [(y, ?new)]\<rparr>"
  have "getOperator y tag d = Inr (broadcast (subscribe_stage y ?d))"
    using assms by (simp add: getOperator_def state_of_def)
  moreover have "state_of ?d y = Some ?new"
    using assms by (simp add: state_of_def map_add_def)
  then have "state_of (broadcast (subscribe_stage y ?d)) y = Some (?new\<lparr>state_subscription := Some (length (closed d))\<rparr>)"
    by (simp add: subscribe_stage_def)
  moreover have "is_open (broadcast (subscribe_stage y ?d)) (length (closed d))"
    by (simp add: is_open_def)
  ultimately show ?thesis by simp
qed

lemma getOperator_after_unsubscribe_throws:
  "state_of d y = Some st \<Longrightarrow> getOperator y tag (unsubscribe d) = Inl TypeError"
  using state_of_unsubscribe [of d y] by (simp add: getOperator_def state_of_def)

lemma teardown_empties_buffers: "buffers (teardown d) = map (\<lambda>b. []) (buffers d)"
  by (simp add: teardown_def buffers_unsubscribe buffers_resume)

subsection \<open>Runs: the statistics feed and the invariants\<close>

lemma apply_op_unchanged: "\<not> publishes op d \<Longrightarrow> apply_op op d = d"
  by (cases op) (auto simp: next_handler_def split: sum.splits)

lemma apply_op_stats:
  "publishes op d \<Longrightarrow> this_stats (apply_op op d) = this_stats d @ [current_stats (apply_op op d)]"
proof (cases op)
  case (GetOperator x tag)
  assume "publishes op d"
  with GetOperator show ?thesis by (auto split: sum.splits dest: getOperator_stats)
qed (simp_all add: clear_def next_handler_def pause_def resume_def skip_def step_def unsubscribe_def)

lemma run_stats: "this_stats (run ops d) = this_stats d @ published ops d"
  unfolding run_def
proof (induction ops arbitrary: d)
  case Nil
  show ?case by simp
next
  case (Cons op ops)
  show ?case
  proof (cases "publishes op d")
    case True
    with Cons [of "apply_op op d"] show ?thesis by (simp add: apply_op_stats)
  next
    case False
    with Cons [of "apply_op op d"] show ?thesis by (simp add: apply_op_unchanged)
  qed
qed

lemma published_nonnegative: "r \<in> set (published ops d) \<Longrightarrow> 0 \<le> notifications r"
  by (induction ops arbitrary: d) (auto simp: current_stats_def split: if_splits)





lemma keys_distinct_apply_op:
  "keys_distinct d \<Longrightarrow> keys_distinct (apply_op op d)"
proof (cases op)
  case (GetOperator x tag)
  assume "keys_distinct d"
  with GetOperator show ?thesis
    by (auto simp: keys_distinct_def split: sum.splits dest: getOperator_keys)
qed (simp_all add: keys_distinct_def clear_def next_handler_def pause_def resume_def
    skip_def step_def unsubscribe_def)

lemma held_in_store_apply_op: "held_in_store d \<Longrightarrow> held_in_store (apply_op op d)"
proof (cases op)
  case (GetOperator x tag)
  assume "held_in_store d"
  with GetOperator show ?thesis
    using getOperator_held [of x tag d] getOperator_closed [of x tag d]
    by (fastforce simp: held_in_store_def split: sum.splits)
next
  case Unsubscribe
  then show ?thesis by (simp add: held_in_store_def held_unsubscribe)
qed (simp_all add: held_in_store_def held_after closed_after)

lemma run_preserves:
  assumes "P d" and "\<And>op d. P d \<Longrightarrow> P (apply_op op d)"
  shows "P (run ops d)"
  using assms(1) unfolding run_def
  by (induction ops arbitrary: d) (simp_all add: assms(2))



lemma reachable_keys_distinct: "keys_distinct (run ops (new_Deck m))"
  by (rule run_preserves [where P = keys_distinct])
    (simp_all add: keys_distinct_apply_op, simp add: keys_distinct_def new_Deck_def)

lemma reachable_held_in_store: "held_in_store (run ops (new_Deck m))"
  by (rule run_preserves [where P = held_in_store])
    (simp_all add: held_in_store_apply_op, simp add: held_in_store_def new_Deck_def held_def)


lemma stays_paused_apply_op: "this_paused d \<Longrightarrow> Resume \<noteq> op \<Longrightarrow> this_paused (apply_op op d)"
  by (cases op) (auto simp: paused_after split: sum.splits dest: getOperator_paused)

lemma stays_paused: "this_paused d \<Longrightarrow> Resume \<notin> set ops \<Longrightarrow> this_paused (run ops d)"
  unfolding run_def
  by (induction ops arbitrary: d) (simp_all add: stays_paused_apply_op)

lemma map2_append_nothing:
  "length xs = length ys \<Longrightarrow> map (\<lambda>(f, b). f @ b) (zip xs (map (\<lambda>b. []) ys)) = xs"
  by (induction xs ys rule: list_induct2) auto

subsection \<open>The example decks\<close>

lemma example_deck_reached: "getOperator 0 None (new_Deck ()) = Inr example_deck"
  by (simp add: getOperator_def new_Deck_def subscribe_stage_def with_state_def broadcast_def
      count_notifications_def example_deck_def example_state_def)

lemma example_deck_facts:
  "this_paused example_deck" "state_of example_deck 0 = Some example_state" "is_open example_deck 0"
  by (simp_all add: example_deck_def state_of_def is_open_def)

lemma run_example: "run [GetOperator 0 None] (new_Deck ()) = example_deck"
  by (simp add: run_def example_deck_reached)

lemma example_buffered_value:
  "example_buffered =
     \<lparr>this_match = (), this_paused = True,
      this_states = [(0, example_state\<lparr>state_notifications := [1, 2]\<rparr>)],
      this_stats = [\<lparr>notifications = 0, paused = True\<rparr>, \<lparr>notifications = 1, paused = True\<rparr>,
                    \<lparr>notifications = 2, paused = True\<rparr>],
      closed = [False]\<rparr>"
  by (simp add: example_buffered_def next_handler_def is_open_def example_deck_def
      example_state_def with_state_def broadcast_def count_notifications_def)

subsection \<open>The deck when consumers call back\<close>


lemma subject_next_quiet:
  "subject_next (Suc fuel) quiet x n d
     = Some (with_state x (\<lambda>state. state\<lparr>state_subject := state_subject state @ [n]\<rparr>) d)"
  by (simp add: quiet_def)

lemma with_state_compose: "with_state x f (with_state x g d) = with_state x (f \<circ> g) d"
  by (simp add: with_state_def comp_def case_prod_unfold)

lemma with_state_cong_entry:
  assumes "distinct (map fst (this_states d))" and "state_of d x = Some st" and "f st = g st"
  shows "with_state x f d = with_state x g d"
proof -
  have "map (\<lambda>(k, state). if k = x then (k, f state) else (k, state)) (this_states d)
      = map (\<lambda>(k, state). if k = x then (k, g state) else (k, state)) (this_states d)"
  proof (rule map_cong [OF refl])
    fix p assume p: "p \<in> set (this_states d)"
    obtain k state where kst: "p = (k, state)" by (cases p)
    show "(case p of (k, state) \<Rightarrow> if k = x then (k, f state) else (k, state))
        = (case p of (k, state) \<Rightarrow> if k = x then (k, g state) else (k, state))"
    proof (cases "k = x")
      case True
      with p kst have "(x, state) \<in> set (this_states d)" by simp
      with assms(1) have "map_of (this_states d) x = Some state"
        by (rule map_of_is_SomeI)
      with assms(2,3) True kst show ?thesis by (simp add: state_of_def)
    next
      case False
      with kst show ?thesis by simp
    qed
  qed
  then show ?thesis by (simp add: with_state_def)
qed

lemma with_state_untracked: "state_of d x = None \<Longrightarrow> with_state x f d = d"
proof -
  assume "state_of d x = None"
  then have "fst p \<noteq> x" if "p \<in> set (this_states d)" for p
    using that by (auto simp: state_of_def map_of_eq_None_iff)
  then have "map (\<lambda>(k, state). if k = x then (k, f state) else (k, state)) (this_states d)
      = this_states d"
    by (intro map_idI) (auto simp: case_prod_unfold)
  then show ?thesis by (simp add: with_state_def)
qed

lemma drain_reentrant_quiet:
  fixes d :: "('m, 'n) Deck"
  assumes "distinct (map fst (this_states d))"
    and "\<forall>st. state_of d x = Some st \<longrightarrow> length (state_notifications st) < fuel"
    and "0 < fuel"
  shows "drain_reentrant fuel quiet x d = Some (with_state x drain d)"
  using assms
proof (induction fuel arbitrary: d)
  case 0
  then show ?case by simp
next
  case (Suc fuel)
  show ?case
  proof (cases "state_of d x")
    case None
    then show ?thesis by (simp add: with_state_untracked)
  next
    case (Some st)
    show ?thesis
    proof (cases "state_notifications st")
      case Nil
      with Some have "drain st = id st" by (simp add: drain_closed_form)
      with Suc.prems(1) Some have "with_state x drain d = with_state x id d"
        by (rule with_state_cong_entry)
      also have "\<dots> = d"
      proof -
        have "map (\<lambda>(k, state). if k = x then (k, id state) else (k, state)) (this_states d)
            = this_states d"
          by (intro map_idI) auto
        then show ?thesis by (simp add: with_state_def)
      qed
      finally show ?thesis using Some Nil by simp
    next
      case (Cons n rest)
      let ?shift = "\<lambda>state :: 'n State. state\<lparr>state_notifications := rest\<rparr>"
      let ?emit = "\<lambda>state :: 'n State. state\<lparr>state_subject := state_subject state @ [n]\<rparr>"
      let ?d = "with_state x (?emit \<circ> ?shift) d"
      from Suc.prems(2) Some Cons have fuel: "length rest < fuel" by simp
      then obtain k where k: "fuel = Suc k" by (cases fuel) simp_all
      have "subject_next fuel quiet x n (with_state x ?shift d) = Some ?d"
        by (simp only: k subject_next_quiet with_state_compose)
      then have step: "drain_reentrant (Suc fuel) quiet x d = drain_reentrant fuel quiet x ?d"
        by (subst drain_reentrant.simps) (simp add: Some Cons)
      have "drain_reentrant fuel quiet x ?d = Some (with_state x drain ?d)"
      proof (rule Suc.IH)
        show "distinct (map fst (this_states ?d))" using Suc.prems(1) by simp
        show "\<forall>st. state_of ?d x = Some st \<longrightarrow> length (state_notifications st) < fuel"
          using Some fuel by simp
        show "0 < fuel" using k by simp
      qed
      also have "with_state x drain ?d = with_state x (drain \<circ> (?emit \<circ> ?shift)) d"
        by (rule with_state_compose)
      also have "\<dots> = with_state x drain d"
        using Suc.prems(1) Some
      proof (rule with_state_cong_entry)
        show "(drain \<circ> (?emit \<circ> ?shift)) st = drain st"
          using Cons by (simp add: drain_closed_form)
      qed
      finally have "drain_reentrant fuel quiet x ?d = Some (with_state x drain d)" .
      then show ?thesis by (simp only: step)
    qed
  qed
qed

lemma fold_with_state:
  "distinct ks \<Longrightarrow>
     this_states (fold (\<lambda>x. with_state x f) ks d)
       = map (\<lambda>(k, state). if k \<in> set ks then (k, f state) else (k, state)) (this_states d)"
proof (induction ks arbitrary: d)
  case Nil
  show ?case by (simp add: case_prod_unfold)
next
  case (Cons k ks)
  then show ?case
    by (auto simp: with_state_def case_prod_unfold)
qed

lemma fold_with_state_fields [simp]:
  "this_paused (fold (\<lambda>x. with_state x f) ks d) = this_paused d"
  "this_stats (fold (\<lambda>x. with_state x f) ks d) = this_stats d"
  "closed (fold (\<lambda>x. with_state x f) ks d) = closed d"
  "this_match (fold (\<lambda>x. with_state x f) ks d) = this_match d"
  by (induction ks arbitrary: d) simp_all

lemma fold_with_state_all:
  assumes "distinct (map fst (this_states d))"
  shows "fold (\<lambda>x. with_state x f) (map fst (this_states d)) d = forEach f d"
proof -
  have "this_states (fold (\<lambda>x. with_state x f) (map fst (this_states d)) d)
      = this_states (forEach f d)"
    using assms by (simp add: fold_with_state forEach_def case_prod_unfold cong: map_cong)
  then show ?thesis
    by (intro Deck.equality) simp_all
qed

lemma forEach_drain_quiet:
  assumes "distinct (map fst (this_states d))"
    and "\<forall>b \<in> set (buffers d). length b < fuel"
    and "0 < fuel"
  shows "forEach_drain fuel quiet ks d = Some (fold (\<lambda>x. with_state x drain) ks d)"
  using assms
proof (induction ks arbitrary: d)
  case Nil
  show ?case by simp
next
  case (Cons x ks)
  have bound: "length (state_notifications st) < fuel" if "state_of d y = Some st" for y st
  proof -
    from that have "(y, st) \<in> set (this_states d)"
      by (auto simp: state_of_def dest: map_of_SomeD)
    then have "state_notifications st \<in> set (buffers d)" by (force simp: buffers_def)
    with Cons.prems(2) show ?thesis by simp
  qed
  then have first: "drain_reentrant fuel quiet x d = Some (with_state x drain d)"
    using Cons.prems by (intro drain_reentrant_quiet) auto
  have "forEach_drain fuel quiet ks (with_state x drain d)
      = Some (fold (\<lambda>x. with_state x drain) ks (with_state x drain d))"
  proof (rule Cons.IH)
    show "distinct (map fst (this_states (with_state x drain d)))" using Cons.prems(1) by simp
    show "\<forall>b \<in> set (buffers (with_state x drain d)). length b < fuel"
      using Cons.prems(2)
      by (auto simp: buffers_def with_state_def drain_closed_form split: if_splits)
    show "0 < fuel" by (rule Cons.prems(3))
  qed
  with first show ?case by simp
qed

text \<open>
  With a consumer that never calls back, and fuel above the length of every buffer,
  \<open>resume_reentrant\<close> returns, and returns what \<open>resume\<close> does.
\<close>

lemma resume_reentrant_quiet:
  assumes "distinct (map fst (this_states d))" and "\<forall>b \<in> set (buffers d). length b < fuel"
    and "0 < fuel"
  shows "resume_reentrant fuel quiet d = Some (resume d)"
  using forEach_drain_quiet [OF assms, of "map fst (this_states d)"] fold_with_state_all [OF assms(1), of drain]
  by (simp add: resume_reentrant_def resume_def)



subsection \<open>The claims about the deck\<close>

text \<open>
  C1, as the specification states it, fails: \<open>unsubscribe\<close> does not clear the buffers.
  On the deck that tracks stream \<open>0\<close> and has buffered the notification \<open>7\<close>, the
  buffer still holds \<open>7\<close> after \<open>unsubscribe\<close>.
\<close>

theorem unsubscribe_keeps_buffers_counterexample:
  "getOperator 0 None (new_Deck ()) = Inr example_deck
   \<and> buffers (next_handler 0 0 7 example_deck) = [[7]]
   \<and> buffers (unsubscribe (next_handler 0 0 7 example_deck)) = [[7]]"
  by (simp add: example_deck_reached buffers_unsubscribe)
    (simp add: example_deck_def example_state_def next_handler_def is_open_def with_state_def
      buffers_def)

text \<open>
  C1, amended: after \<open>unsubscribe\<close> no state holds a subscription and every
  subscription that a state held is unsubscribed; the buffers, the forwarded traces and
  the paused flag are as they were, and one statistics record is published; a stream
  that the deck has not tracked before can be intercepted afterwards, and its stage is
  open. (\<open>PausePlugin.teardown\<close> empties the buffers by calling \<open>resume\<close> first.)
\<close>

theorem unsubscribe_tears_down:
  "held (unsubscribe d) = map (\<lambda>h. None) (held d)
   \<and> (\<forall>s. Some s \<in> set (held d) \<longrightarrow> \<not> is_open (unsubscribe d) s)
   \<and> buffers (unsubscribe d) = buffers d
   \<and> forwarded (unsubscribe d) = forwarded d
   \<and> this_paused (unsubscribe d) = this_paused d
   \<and> this_stats (unsubscribe d) = this_stats d @ [current_stats d]
   \<and> (state_of d y = None \<longrightarrow>
        (\<exists>d'. getOperator y tag (unsubscribe d) = Inr d'
           \<and> state_of d' y = Some \<lparr>state_notifications = [], state_subject = [],
                 state_subscription = Some (length (closed d)), state_tag = tag\<rparr>
           \<and> is_open d' (length (closed d))))"
proof -
  have "\<not> is_open (unsubscribe d) s" if "Some s \<in> set (held d)" for s
  proof (cases "s < length (closed d)")
    case True
    from that obtain x st where "(x, st) \<in> set (this_states d)" "state_subscription st = Some s"
      by (auto simp: held_def)
    then have "unsubscribe_store (this_states d) (closed d) ! s"
      using True by (rule unsubscribe_store_closes)
    then show ?thesis by (simp add: is_open_def unsubscribe_def)
  next
    case False
    then show ?thesis by (simp add: is_open_def unsubscribe_def)
  qed
  moreover have "current_stats (unsubscribe d) = current_stats d"
    by (simp add: current_stats_def buffers_unsubscribe paused_after)
  with apply_op_stats [of Unsubscribe d]
  have "this_stats (unsubscribe d) = this_stats d @ [current_stats d]"
    by simp
  moreover have "length (closed (unsubscribe d)) = length (closed d)"
    by (simp add: unsubscribe_def)
  ultimately show ?thesis
    using getOperator_new_stream [of "unsubscribe d" y tag]
    by (simp add: held_unsubscribe buffers_unsubscribe forwarded_unsubscribe paused_after
        state_of_unsubscribe)
qed

theorem unsubscribe_tears_down_witness:
  "held (unsubscribe example_deck) = [None] \<and> Some 0 \<in> set (held example_deck)
   \<and> \<not> is_open (unsubscribe example_deck) 0 \<and> state_of example_deck 5 = None
   \<and> (\<exists>d'. getOperator 5 None (unsubscribe example_deck) = Inr d'
          \<and> state_of d' 5 = Some \<lparr>state_notifications = [], state_subject = [],
                state_subscription = Some (Suc 0), state_tag = None\<rparr>
          \<and> is_open d' (Suc 0))"
proof -
  have facts: "held example_deck = [Some 0]" "state_of example_deck 5 = None"
      "length (closed example_deck) = Suc 0"
    by (simp_all add: held_def state_of_def example_deck_def example_state_def)
  show ?thesis
    using unsubscribe_tears_down [of example_deck 5 None] by (simp add: facts)
qed

text \<open>
  C2 (deck FIFO law): on a paused deck that controls stream \<open>x\<close> through an open
  stage, the notifications \<open>n1\<close>, \<open>n2\<close>, \<open>n3\<close> arriving in that order are appended to
  the buffer and nothing is forwarded; \<open>resume\<close> then forwards the whole buffer in
  arrival order, ending with \<open>n1\<close>, \<open>n2\<close>, \<open>n3\<close> (exactly these when the buffer was
  empty before), leaves the buffer empty and the deck resumed; a notification \<open>n4\<close>
  arriving afterwards is forwarded at once.
\<close>

theorem resume_fifo:
  assumes "this_paused d" and "state_of d x = Some st" and "is_open d s"
  shows "state_of (next_handler s x n3 (next_handler s x n2 (next_handler s x n1 d))) x
           = Some (st\<lparr>state_notifications := state_notifications st @ [n1, n2, n3]\<rparr>)
       \<and> state_of (resume (next_handler s x n3 (next_handler s x n2 (next_handler s x n1 d)))) x
           = Some (st\<lparr>state_notifications := [],
                        state_subject := state_subject st @ state_notifications st @ [n1, n2, n3]\<rparr>)
       \<and> \<not> this_paused (resume (next_handler s x n3 (next_handler s x n2 (next_handler s x n1 d))))
       \<and> state_of (next_handler s x n4
               (resume (next_handler s x n3 (next_handler s x n2 (next_handler s x n1 d))))) x
           = Some (st\<lparr>state_notifications := [],
                        state_subject := state_subject st @ state_notifications st @ [n1, n2, n3, n4]\<rparr>)"
  using assms by (simp add: next_handler_def resume_def drain_closed_form)

theorem resume_fifo_witness:
  "this_paused example_deck \<and> state_of example_deck 0 = Some example_state \<and> is_open example_deck 0
   \<and> state_of (resume (next_handler 0 0 3 (next_handler 0 0 2 (next_handler 0 0 1 example_deck)))) 0
       = Some (example_state\<lparr>state_subject := [1, 2, 3]\<rparr>)"
  using resume_fifo [where d = example_deck and x = 0 and st = example_state and s = 0
      and ?n1.0 = 1 and ?n2.0 = 2 and ?n3.0 = 3 and ?n4.0 = 4]
  by (simp add: example_deck_facts) (simp add: example_state_def)

text \<open>
  C3: on a paused deck whose buffer for stream \<open>x\<close> is \<open>[n1, n2]\<close>, \<open>step\<close> forwards
  \<open>n1\<close> and nothing else, leaves \<open>[n2]\<close> buffered and the deck paused; \<open>skip\<close> leaves
  \<open>[n2]\<close> buffered and forwards nothing, on any stream.
\<close>

theorem step_and_skip:
  assumes "this_paused d" and "state_of d x = Some st" and "state_notifications st = [n1, n2]"
  shows "state_of (step d) x
           = Some (st\<lparr>state_notifications := [n2], state_subject := state_subject st @ [n1]\<rparr>)
       \<and> this_paused (step d)
       \<and> state_of (skip d) x = Some (st\<lparr>state_notifications := [n2]\<rparr>)
       \<and> forwarded (skip d) = forwarded d
       \<and> this_paused (skip d)"
  using assms by (simp add: forwarded_skip) (simp add: step_def skip_def)

theorem step_and_skip_witness:
  "this_paused example_buffered
   \<and> state_of example_buffered 0 = Some (example_state\<lparr>state_notifications := [1, 2]\<rparr>)
   \<and> state_of (step example_buffered) 0
       = Some (example_state\<lparr>state_notifications := [2], state_subject := [1]\<rparr>)
   \<and> state_of (skip example_buffered) 0 = Some (example_state\<lparr>state_notifications := [2]\<rparr>)"
proof -
  have facts: "this_paused example_buffered"
      "state_of example_buffered 0 = Some (example_state\<lparr>state_notifications := [1, 2]\<rparr>)"
    by (simp_all add: example_buffered_value state_of_def)
  have "state_notifications (example_state\<lparr>state_notifications := [1, 2]\<rparr>) = [1, 2]"
       "state_subject example_state = []"
    by (simp_all add: example_state_def)
  with step_and_skip [OF facts, of 1 2] facts show ?thesis by simp
qed

text \<open>
  C4: \<open>clear()\<close> without a predicate empties every buffer and forwards nothing, and a
  \<open>resume\<close> after it forwards nothing either; \<open>clear(predicate)\<close> keeps in every buffer,
  in order, exactly the notifications that do not match the predicate, and forwards
  nothing.
\<close>

theorem clear_discards:
  "buffers (clear_all d) = map (\<lambda>b. []) (buffers d)
   \<and> forwarded (clear_all d) = forwarded d
   \<and> forwarded (resume (clear_all d)) = forwarded d
   \<and> buffers (clear predicate d) = map (filter (\<lambda>n. \<not> predicate n)) (buffers d)
   \<and> forwarded (clear predicate d) = forwarded d"
proof -
  have same_length: "length (forwarded d) = length (buffers d)"
    by (simp add: forwarded_def buffers_def)
  have emptied: "buffers (clear_all d) = map (\<lambda>b. []) (buffers d)"
    by (simp add: clear_all_def buffers_clear)
  have kept: "forwarded (clear_all d) = forwarded d"
    by (simp add: clear_all_def forwarded_clear)
  have "forwarded (resume (clear_all d)) = forwarded d"
    by (simp only: forwarded_resume emptied kept map2_append_nothing [OF same_length])
  with emptied kept show ?thesis
    by (simp add: buffers_clear forwarded_clear)
qed

theorem clear_discards_witness:
  "buffers example_buffered = [[1, 2]]
   \<and> buffers (clear_all example_buffered) = [[]]
   \<and> forwarded (resume (clear_all example_buffered)) = [[]]
   \<and> buffers (clear even example_buffered) = [[1]]"
proof -
  have "buffers example_buffered = [[1, 2]]" "forwarded example_buffered = [[]]"
    by (simp_all add: example_buffered_value buffers_def forwarded_def example_state_def)
  with clear_discards [of example_buffered even] show ?thesis by simp
qed




text \<open>
  C6 (statistics): \<open>broadcast\<close> publishes the total of the buffer lengths over all
  streams together with the paused flag; along any run the feed grows by exactly the
  record of the state after each event that enqueues, dequeues or changes the control
  state (\<open>published\<close>); every record on the feed of a deck that exists has a count of
  notifications that is at least 0.
\<close>

theorem stats_feed:
  "this_stats (broadcast d)
     = this_stats d @ [\<lparr>notifications = int (sum_list (map length (buffers d))), paused = this_paused d\<rparr>]
   \<and> this_stats (run ops d) = this_stats d @ published ops d
   \<and> (\<forall>r \<in> set (this_stats (run ops (new_Deck m))). 0 \<le> notifications r)"
proof -
  have "0 \<le> notifications r" if "r \<in> set (this_stats (run ops (new_Deck m)))" for r
  proof -
    from that have "r \<in> set (published ops (new_Deck m))"
      by (simp add: run_stats new_Deck_def)
    then show ?thesis by (rule published_nonnegative)
  qed
  then show ?thesis by (simp add: run_stats) (simp add: current_stats_def)
qed

theorem stats_feed_witness:
  "this_stats (run [GetOperator 0 None, Next 0 0 (7::nat), Next 0 0 8, Step, Resume] (new_Deck ()))
     = [\<lparr>notifications = 0, paused = True\<rparr>, \<lparr>notifications = 1, paused = True\<rparr>,
        \<lparr>notifications = 2, paused = True\<rparr>, \<lparr>notifications = 1, paused = True\<rparr>,
        \<lparr>notifications = 0, paused = False\<rparr>]"
  using stats_feed [of "new_Deck ()" "[GetOperator 0 None, Next 0 0 (7::nat), Next 0 0 8, Step, Resume]" "()"]
  by (simp add: new_Deck_def getOperator_def subscribe_stage_def with_state_def forEach_def
      next_handler_def is_open_def step_def resume_def drain_closed_form current_stats_def
      buffers_def broadcast_def count_notifications_def)

text \<open>
  C7: a deck reached by any run from a new deck has one state per stream; when
  \<open>getOperator\<close> is applied for a stream \<open>x\<close> whose state holds the subscription
  \<open>old\<close>, no state is added, \<open>old\<close> is unsubscribed, the state holds a new open
  subscription, a notification sent through the old stage changes nothing, and one sent
  through the new stage of a paused deck is buffered once.
\<close>

theorem one_stage_per_stream:
  assumes "d = run ops (new_Deck m)"
  shows "distinct (map fst (this_states d))
       \<and> (\<forall>st old. state_of d x = Some st \<and> state_subscription st = Some old \<longrightarrow>
            (\<exists>d'. getOperator x tag d = Inr d'
               \<and> map fst (this_states d') = map fst (this_states d)
               \<and> buffers d' = buffers d
               \<and> state_of d' x = Some (st\<lparr>state_subscription := Some (length (closed d))\<rparr>)
               \<and> \<not> is_open d' old
               \<and> is_open d' (length (closed d))
               \<and> next_handler old x n d' = d'
               \<and> (this_paused d \<longrightarrow>
                    state_of (next_handler (length (closed d)) x n d') x
                      = Some (st\<lparr>state_subscription := Some (length (closed d)),
                                   state_notifications := state_notifications st @ [n]\<rparr>))))"
proof -
  have keys: "distinct (map fst (this_states d))"
    using reachable_keys_distinct [of ops m] assms by (simp add: keys_distinct_def)
  have replaced: "\<exists>d'. getOperator x tag d = Inr d'
               \<and> map fst (this_states d') = map fst (this_states d)
               \<and> buffers d' = buffers d
               \<and> state_of d' x = Some (st\<lparr>state_subscription := Some (length (closed d))\<rparr>)
               \<and> \<not> is_open d' old
               \<and> is_open d' (length (closed d))
               \<and> next_handler old x n d' = d'
               \<and> (this_paused d \<longrightarrow>
                    state_of (next_handler (length (closed d)) x n d') x
                      = Some (st\<lparr>state_subscription := Some (length (closed d)),
                                   state_notifications := state_notifications st @ [n]\<rparr>))"
    if st: "state_of d x = Some st" and old: "state_subscription st = Some old" for st old
  proof -
    let ?d' = "broadcast (subscribe_stage x (d\<lparr>closed := (closed d)[old := True]\<rparr>))"
    from st have "(x, st) \<in> set (this_states d)"
      by (auto simp: state_of_def dest: map_of_SomeD)
    with old have "Some old \<in> set (held d)" by (force simp: held_def)
    with reachable_held_in_store [of ops m] assms have in_store: "old < length (closed d)"
      by (simp add: held_in_store_def)
    have get: "getOperator x tag d = Inr ?d'"
      using st old by (simp add: getOperator_def state_of_def)
    have closed_old: "\<not> is_open ?d' old"
      using in_store by (simp add: is_open_def nth_append)
    have open_new: "is_open ?d' (length (closed d))"
      by (simp add: is_open_def nth_append)
    have state: "state_of ?d' x = Some (st\<lparr>state_subscription := Some (length (closed d))\<rparr>)"
      using st by (simp add: subscribe_stage_def)
    have "state_of (next_handler (length (closed d)) x n ?d') x
            = Some (st\<lparr>state_subscription := Some (length (closed d)),
                         state_notifications := state_notifications st @ [n]\<rparr>)"
      if "this_paused d"
      using that open_new state by (simp add: next_handler_def)
    with get closed_old open_new state show ?thesis
      by (simp add: next_handler_def)
  qed
  from keys replaced show ?thesis by blast
qed

theorem one_stage_per_stream_witness:
  "example_deck = run [GetOperator 0 None] (new_Deck ())
   \<and> state_of example_deck 0 = Some example_state \<and> state_subscription example_state = Some 0
   \<and> this_paused example_deck
   \<and> (\<exists>d'. getOperator 0 None example_deck = Inr d'
          \<and> map fst (this_states d') = [0]
          \<and> \<not> is_open d' 0 \<and> is_open d' (Suc 0)
          \<and> next_handler 0 0 7 d' = d'
          \<and> state_of (next_handler (Suc 0) 0 7 d') 0
                = Some (example_state\<lparr>state_subscription := Some (Suc 0), state_notifications := [7]\<rparr>))"
proof -
  have facts: "state_of example_deck 0 = Some example_state" "state_subscription example_state = Some 0"
      "this_paused example_deck" "length (closed example_deck) = Suc 0"
      "map fst (this_states example_deck) = [0]" "state_notifications example_state = []"
    by (simp_all add: state_of_def example_deck_def example_state_def)
  from one_stage_per_stream [OF run_example [symmetric], of 0 None 7] facts(1,2)
  have "\<exists>d'. getOperator 0 None example_deck = Inr d'
               \<and> map fst (this_states d') = map fst (this_states example_deck)
               \<and> buffers d' = buffers example_deck
               \<and> state_of d' 0 = Some (example_state\<lparr>state_subscription := Some (length (closed example_deck))\<rparr>)
               \<and> \<not> is_open d' 0
               \<and> is_open d' (length (closed example_deck))
               \<and> next_handler 0 0 7 d' = d'
               \<and> (this_paused example_deck \<longrightarrow>
                    state_of (next_handler (length (closed example_deck)) 0 7 d') 0
                      = Some (example_state\<lparr>state_subscription := Some (length (closed example_deck)),
                                   state_notifications := state_notifications example_state @ [7]\<rparr>))"
    by blast
  then show ?thesis
    by (auto simp: facts run_example)
qed

text \<open>
  C10: a new deck is paused, and it stays paused along any run without \<open>resume\<close>; a
  notification that arrives through an open stage of such a deck is appended to the
  buffer of its stream and is not forwarded.
\<close>

theorem new_deck_buffers:
  assumes "Resume \<notin> set ops" and "d = run ops (new_Deck m)"
    and "is_open d s" and "state_of d x = Some st"
  shows "this_paused (new_Deck m :: ('m, 'n) Deck) \<and> this_paused (d :: ('m, 'n) Deck)
       \<and> state_of (next_handler s x n d) x
           = Some (st\<lparr>state_notifications := state_notifications st @ [n]\<rparr>)
       \<and> forwarded (next_handler s x n d) = forwarded d"
proof -
  have new: "this_paused (new_Deck m :: ('m, 'n) Deck)" by (simp add: new_Deck_def)
  with assms(1,2) have "this_paused d" by (simp add: stays_paused)
  with new assms(3,4) show ?thesis
    by (simp add: next_handler_def forwarded_with_state_other)
qed

theorem new_deck_buffers_witness:
  "Resume \<notin> set [GetOperator 0 None] \<and> example_deck = run [GetOperator 0 None] (new_Deck ())
   \<and> is_open example_deck 0 \<and> state_of example_deck 0 = Some example_state
   \<and> state_of (next_handler 0 0 7 example_deck) 0 = Some (example_state\<lparr>state_notifications := [7]\<rparr>)
   \<and> forwarded (next_handler 0 0 7 example_deck) = [[]]"
proof -
  have facts: "state_notifications example_state = []" "forwarded example_deck = [[]]"
    by (simp_all add: forwarded_def example_deck_def example_state_def)
  show ?thesis
    using new_deck_buffers [OF _ run_example [symmetric], of 0 0 example_state 7]
    by (simp add: example_deck_facts run_example facts)
qed

section \<open>Properties of the graph tracker\<close>

lemma furthest_sound:
  assumes "furthest ns n = Some r"
  shows "(n, r) \<in> (link ns)\<^sup>* \<and> r \<notin> Domain (link ns)"
proof (rule furthest.raw_induct
    [where P = "\<lambda>ns n r. (n, r) \<in> (link ns)\<^sup>* \<and> r \<notin> Domain (link ns)", OF _ assms])
  fix f ns n r
  assume IH: "\<And>ns n r. f ns n = Some r \<Longrightarrow> (n, r) \<in> (link ns)\<^sup>* \<and> r \<notin> Domain (link ns)"
    and body: "(case ns n of
                  None \<Rightarrow> Some n
                | Some node \<Rightarrow>
                    (case destination node of None \<Rightarrow> Some n | Some d \<Rightarrow> f ns d)) = Some r"
  show "(n, r) \<in> (link ns)\<^sup>* \<and> r \<notin> Domain (link ns)"
  proof (cases "ns n")
    case None
    with body show ?thesis by (auto simp: link_def)
  next
    case tracked: (Some node)
    show ?thesis
    proof (cases "destination node")
      case None
      with tracked body show ?thesis by (auto simp: link_def)
    next
      case (Some d)
      with tracked body have "f ns d = Some r" by simp
      then have "(d, r) \<in> (link ns)\<^sup>* \<and> r \<notin> Domain (link ns)" by (rule IH)
      moreover have "(n, d) \<in> link ns" using Some tracked by (simp add: link_def)
      ultimately show ?thesis by (auto intro: converse_rtrancl_into_rtrancl)
    qed
  qed
qed

lemma furthest_complete:
  "(n, r) \<in> (link ns)\<^sup>* \<Longrightarrow> r \<notin> Domain (link ns) \<Longrightarrow> furthest ns n = Some r"
proof (induction rule: converse_rtrancl_induct)
  case base
  then show ?case
    by (auto simp: furthest.simps [of ns r] link_def split: option.splits)
next
  case (step n d)
  from step.hyps(1) obtain node where "ns n = Some node" "destination node = Some d"
    by (auto simp: link_def)
  moreover have "furthest ns d = Some r" using step by simp
  ultimately show ?case
    by (simp add: furthest.simps [of ns n])
qed

lemma rootDestination_null: "rootDestination t node = Some None \<longleftrightarrow> destination node = None"
  by (auto simp: rootDestination_def split: option.splits)

lemma rootDestination_furthest:
  "rootDestination t node = Some (Some r) \<longleftrightarrow>
     (\<exists>d. destination node = Some d \<and> (d, r) \<in> (link (nodes t))\<^sup>* \<and> r \<notin> Domain (link (nodes t)))"
  by (auto simp: rootDestination_def split: option.splits
      dest: furthest_sound intro: furthest_complete)

lemma nodes_chain:
  assumes "distinct [a, b, c]"
  shows "nodes (subscribe_chain a b c (new_Tracker w f)) = (\<lambda>subscription. None)
    (c \<mapsto> \<lparr>destination = None, sources = [b], merges = [], sentinel = f c, terminal = None\<rparr>,
     b \<mapsto> \<lparr>destination = Some c, sources = [a], merges = [], sentinel = f c, terminal = None\<rparr>,
     a \<mapsto> \<lparr>destination = Some b, sources = [], merges = [], sentinel = f c, terminal = None\<rparr>)"
  using assms
  by (auto simp: subscribe_chain_def onSubscribe_def attach_root_def new_Tracker_def fun_eq_iff)

text \<open>
  C9: in the chain where \<open>c\<close> subscribes to \<open>b\<close> and \<open>b\<close> subscribes to \<open>a\<close>, the root
  destination of \<open>a\<close> and of \<open>b\<close> is \<open>c\<close>, and both the destination and the root
  destination of \<open>c\<close> are \<open>null\<close>. In any tracker the root destination of a node is
  \<open>null\<close> exactly when its destination is, and it is \<open>r\<close> exactly when \<open>r\<close> is reached
  from the destination by following destination links and has no destination itself.
\<close>

theorem root_destinations:
  "(distinct [a, b, c] \<longrightarrow>
      (\<exists>na nb nc.
         get (subscribe_chain a b c (new_Tracker w f)) a = Inr na \<and> get (subscribe_chain a b c (new_Tracker w f)) b = Inr nb
         \<and> get (subscribe_chain a b c (new_Tracker w f)) c = Inr nc
         \<and> destination na = Some b \<and> destination nb = Some c \<and> destination nc = None
         \<and> rootDestination (subscribe_chain a b c (new_Tracker w f)) na = Some (Some c)
         \<and> rootDestination (subscribe_chain a b c (new_Tracker w f)) nb = Some (Some c)
         \<and> rootDestination (subscribe_chain a b c (new_Tracker w f)) nc = Some None))
   \<and> (rootDestination t node = Some None \<longleftrightarrow> destination node = None)
   \<and> (rootDestination t node = Some (Some r) \<longleftrightarrow>
        (\<exists>d. destination node = Some d \<and> (d, r) \<in> (link (nodes t))\<^sup>*
           \<and> r \<notin> Domain (link (nodes t))))"
proof -
  have "furthest (nodes (subscribe_chain a b c (new_Tracker w f))) c = Some c"
       "furthest (nodes (subscribe_chain a b c (new_Tracker w f))) b = Some c"
    if "distinct [a, b, c]"
    using that by (simp_all add: nodes_chain furthest.simps)
  then show ?thesis
    by (auto simp: rootDestination_null rootDestination_furthest [symmetric])
      (auto simp: get_def nodes_chain rootDestination_def)
qed

theorem root_destinations_witness:
  "distinct [2, 1, 0 :: nat]
   \<and> (\<exists>na nb nc.
         get (subscribe_chain 2 1 0 (new_Tracker 0 same_subtree)) 2 = Inr na \<and> get (subscribe_chain 2 1 0 (new_Tracker 0 same_subtree)) 1 = Inr nb
         \<and> get (subscribe_chain 2 1 0 (new_Tracker 0 same_subtree)) 0 = Inr nc
         \<and> destination na = Some 1 \<and> destination nb = Some 0 \<and> destination nc = None
         \<and> rootDestination (subscribe_chain 2 1 0 (new_Tracker 0 same_subtree)) na = Some (Some 0)
         \<and> rootDestination (subscribe_chain 2 1 0 (new_Tracker 0 same_subtree)) nb = Some (Some 0)
         \<and> rootDestination (subscribe_chain 2 1 0 (new_Tracker 0 same_subtree)) nc = Some None)"
proof -
  have "distinct [2, 1, 0 :: nat] \<longrightarrow>
      (\<exists>na nb nc.
         get (subscribe_chain 2 1 0 (new_Tracker 0 same_subtree)) 2 = Inr na \<and> get (subscribe_chain 2 1 0 (new_Tracker 0 same_subtree)) 1 = Inr nb
         \<and> get (subscribe_chain 2 1 0 (new_Tracker 0 same_subtree)) 0 = Inr nc
         \<and> destination na = Some 1 \<and> destination nb = Some 0 \<and> destination nc = None
         \<and> rootDestination (subscribe_chain 2 1 0 (new_Tracker 0 same_subtree)) na = Some (Some 0)
         \<and> rootDestination (subscribe_chain 2 1 0 (new_Tracker 0 same_subtree)) nb = Some (Some 0)
         \<and> rootDestination (subscribe_chain 2 1 0 (new_Tracker 0 same_subtree)) nc = Some None)"
    by (rule root_destinations [of 2 1 0 0 same_subtree, THEN conjunct1])
  then show ?thesis by simp
qed

lemma sentinel_sources_flush:
  "sentinel_sources (flush n t) subtree = removeAll n (sentinel_sources t subtree)"
  by (simp add: sentinel_sources_def flush_def split: option.split)

lemma sentinel_fold_flush:
  "sentinel_sources (fold flush ns t) subtree = filter (\<lambda>s. s \<notin> set ns) (sentinel_sources t subtree)"
proof (induction ns arbitrary: t)
  case Nil
  show ?case by simp
next
  case (Cons n ns)
  have "removeAll n xs = filter (\<lambda>s. s \<noteq> n) xs" for xs :: "ref list"
    by (induction xs) auto
  with Cons [of "flush n t"] show ?case
    by (simp add: sentinel_sources_flush conj_commute)
qed

lemma sentinel_sources_updates [simp]:
  "sentinel_sources (t\<lparr>clock := c\<rparr>) = sentinel_sources t"
  "sentinel_sources (t\<lparr>timers := ts\<rparr>) = sentinel_sources t"
  "sentinel_sources (t\<lparr>nodes := ns\<rparr>) = sentinel_sources t"
  by (simp_all add: sentinel_sources_def fun_eq_iff)

lemma sentinel_elapse:
  "sentinel_sources (elapse duration t) subtree
     = filter (\<lambda>s. s \<notin> snd ` {timer \<in> set (timers t). fst timer \<le> clock t + duration})
         (sentinel_sources t subtree)"
  by (simp add: elapse_def sentinel_fold_flush case_prod_unfold)

lemma two_roots_value:
  "two_roots w
     = \<lparr>retention_window = w, subtree_of = same_subtree,
        nodes = (\<lambda>subscription. None)
          (0 \<mapsto> \<lparr>destination = None, sources = [], merges = [], sentinel = 0, terminal = None\<rparr>,
           1 \<mapsto> \<lparr>destination = None, sources = [], merges = [], sentinel = 0, terminal = None\<rparr>),
        sentinels = (\<lambda>subtree. None)
          (0 \<mapsto> \<lparr>destination = None, sources = [0, 1], merges = [], sentinel = 0, terminal = None\<rparr>),
        clock = 0, timers = []\<rparr>"
  by (simp add: two_roots_def onSubscribe_def attach_root_def new_Tracker_def same_subtree_def)

lemma length_removeAll_distinct:
  "distinct xs \<Longrightarrow> x \<in> set xs \<Longrightarrow> length (removeAll x xs) = length xs - 1"
  by (simp add: distinct_remove1_removeAll [symmetric] length_remove1)

text \<open>
  C8, as the specification states it, fails when the sentinel has another root: with
  the roots \<open>0\<close> and \<open>1\<close> under one sentinel, the sentinel's source list has length 1,
  not 0, after \<open>0\<close> has completed, both at once with retention window 0 and after the
  window has elapsed with retention window 10.
\<close>

theorem two_roots_counterexample:
  "get (two_roots 0) 0
     = Inr \<lparr>destination = None, sources = [], merges = [], sentinel = 0, terminal = None\<rparr>
   \<and> sentinel_sources (two_roots 0) 0 = [0, 1]
   \<and> length (sentinel_sources (onTeardown 0 Completed (two_roots 0)) 0) = 1
   \<and> sentinel_sources (two_roots 10) 0 = [0, 1]
   \<and> length (sentinel_sources (onTeardown 0 Completed (two_roots 10)) 0) = 2
   \<and> length (sentinel_sources (elapse 10 (onTeardown 0 Completed (two_roots 10))) 0) = 1"
  unfolding two_roots_value
  by (simp add: get_def sentinel_sources_def onTeardown_def scheduleFlush_def flush_def elapse_def)

text \<open>
  C8, amended: let \<open>r\<close> be a tracked subscription that terminates with any outcome (a
  root subscription is one among the sources of its sentinel). With retention window 0
  it is removed from the source list of its sentinel at once and the other roots stay:
  the list is one shorter, and has length 0 when \<open>r\<close> was the only root. With a window
  \<open>d > 0\<close> the list is unchanged at once, and after any duration of at least \<open>d\<close> the
  subscription is no longer in it: its length is 0 when \<open>r\<close> was the only root.
\<close>

theorem flush_root_subscription:
  assumes "nodes t r = Some node"
  shows "(retention_window t = 0 \<longrightarrow>
            sentinel_sources (onTeardown r outcome t) (sentinel node)
              = removeAll r (sentinel_sources t (sentinel node))
            \<and> (distinct (sentinel_sources t (sentinel node))
                   \<and> r \<in> set (sentinel_sources t (sentinel node)) \<longrightarrow>
                 length (sentinel_sources (onTeardown r outcome t) (sentinel node))
                   = length (sentinel_sources t (sentinel node)) - 1)
            \<and> (sentinel_sources t (sentinel node) = [r] \<longrightarrow>
                 length (sentinel_sources (onTeardown r outcome t) (sentinel node)) = 0))
       \<and> (0 < retention_window t \<longrightarrow>
            sentinel_sources (onTeardown r outcome t) (sentinel node)
              = sentinel_sources t (sentinel node)
            \<and> (\<forall>duration \<ge> retention_window t.
                 r \<notin> set (sentinel_sources (elapse duration (onTeardown r outcome t)) (sentinel node))
                 \<and> (sentinel_sources t (sentinel node) = [r] \<longrightarrow>
                      length (sentinel_sources (elapse duration (onTeardown r outcome t))
                                (sentinel node)) = 0)))"
proof (intro conjI impI allI)
  let ?subtree = "sentinel node"
  assume "retention_window t = 0"
  then show now: "sentinel_sources (onTeardown r outcome t) ?subtree = removeAll r (sentinel_sources t ?subtree)"
    using assms by (simp add: onTeardown_def scheduleFlush_def sentinel_sources_flush)
  {
    assume "distinct (sentinel_sources t ?subtree) \<and> r \<in> set (sentinel_sources t ?subtree)"
    then show "length (sentinel_sources (onTeardown r outcome t) ?subtree)
        = length (sentinel_sources t ?subtree) - 1"
      by (simp add: now length_removeAll_distinct)
  }
  assume "sentinel_sources t ?subtree = [r]"
  with now show "length (sentinel_sources (onTeardown r outcome t) ?subtree) = 0" by simp
next
  let ?subtree = "sentinel node"
  assume armed: "0 < retention_window t"
  let ?t = "onTeardown r outcome t"
  have t': "?t = t\<lparr>nodes := (nodes t)(r \<mapsto> node\<lparr>terminal := Some outcome\<rparr>),
                   timers := timers t @ [(clock t + retention_window t, r)]\<rparr>"
    using armed assms by (simp add: onTeardown_def scheduleFlush_def)
  show "sentinel_sources ?t ?subtree = sentinel_sources t ?subtree" by (simp add: t')
  fix duration assume "retention_window t \<le> duration"
  then have "r \<in> snd ` {timer \<in> set (timers ?t). fst timer \<le> clock ?t + duration}"
    by (force simp: t')
  then show gone: "r \<notin> set (sentinel_sources (elapse duration ?t) ?subtree)"
    by (simp add: sentinel_elapse)
  assume "sentinel_sources t ?subtree = [r]"
  then have "set (sentinel_sources (elapse duration ?t) ?subtree) \<subseteq> {r}"
    by (auto simp: sentinel_elapse t')
  with gone show "length (sentinel_sources (elapse duration ?t) ?subtree) = 0"
    by (cases "sentinel_sources (elapse duration ?t) ?subtree") auto
qed

theorem flush_root_subscription_witness:
  "nodes (onSubscribe 0 None (new_Tracker 10 same_subtree)) 0
     = Some \<lparr>destination = None, sources = [], merges = [], sentinel = 0, terminal = None\<rparr>
   \<and> sentinel_sources (onSubscribe 0 None (new_Tracker 10 same_subtree)) 0 = [0]
   \<and> sentinel_sources (onTeardown 0 Completed (onSubscribe 0 None (new_Tracker 10 same_subtree))) 0
       = [0]
   \<and> length (sentinel_sources
         (elapse 10 (onTeardown 0 Completed (onSubscribe 0 None (new_Tracker 10 same_subtree)))) 0) = 0
   \<and> length (sentinel_sources
         (onTeardown 0 Errored (onSubscribe 0 None (new_Tracker 0 same_subtree))) 0) = 0
   \<and> nodes (two_roots 0) 1
     = Some \<lparr>destination = None, sources = [], merges = [], sentinel = 0, terminal = None\<rparr>
   \<and> sentinel_sources (two_roots 0) 0 = [0, 1]
   \<and> sentinel_sources (onTeardown 1 Unsubscribed (two_roots 0)) 0 = [0]"
proof -
  have facts: "nodes (onSubscribe 0 None (new_Tracker w same_subtree)) 0
      = Some \<lparr>destination = None, sources = [], merges = [], sentinel = 0, terminal = None\<rparr>"
    "sentinel_sources (onSubscribe 0 None (new_Tracker w same_subtree)) 0 = [0]"
    "retention_window (onSubscribe 0 None (new_Tracker w same_subtree)) = w" for w
    by (simp_all add: onSubscribe_def attach_root_def new_Tracker_def sentinel_sources_def
        same_subtree_def)
  have shared: "nodes (two_roots 0) (Suc 0)
      = Some \<lparr>destination = None, sources = [], merges = [], sentinel = 0, terminal = None\<rparr>"
    "sentinel_sources (two_roots 0) 0 = [0, 1]" "retention_window (two_roots 0) = 0"
    unfolding two_roots_value by (simp_all add: sentinel_sources_def)
  from flush_root_subscription [OF facts(1), of 10 Completed]
    flush_root_subscription [OF facts(1), of 0 Errored]
    flush_root_subscription [OF shared(1), of Unsubscribed]
  show ?thesis by (simp add: facts shared)
qed

end
